theory Spec2Isabelle
  imports Main "HOL-Library.AList"
begin

section \<open>The multi-agent retrieval workflow of \<^verbatim>\<open>src/agents/multi_agent_system.py\<close>\<close>

text \<open>
  The workflow is a graph of four nodes (router, query, evaluation, response) over one
  state dictionary. The two dependencies, the language model and the vector search, are
  not part of the repository: they are modelled as oracles that may fail, indexed by the
  number of calls made before in the run, so that the same prompt can get different
  replies. Logging is left out. The graph library is modelled by the nodes and edges that
  \<^verbatim>\<open>_build_graph\<close> declares, run from the entry point until \<^verbatim>\<open>END\<close> or until the
  library's limit on the number of steps is used up.
\<close>

subsection \<open>Python strings\<close>

text \<open>
  Strings are lists of characters. \<^verbatim>\<open>str.lower\<close> is modelled on ASCII letters;
  every other character is left as it is.
\<close>

definition lower_char :: "char \<Rightarrow> char" where
  "lower_char c =
     (case map_of (zip ''ABCDEFGHIJKLMNOPQRSTUVWXYZ'' ''abcdefghijklmnopqrstuvwxyz'') c of
        Some d \<Rightarrow> d
      | None \<Rightarrow> c)"

definition lower :: "string \<Rightarrow> string" where
  "lower s = map lower_char s"

text \<open>\<^verbatim>\<open>text.startswith(pat)\<close> and \<^verbatim>\<open>pat in text\<close>.\<close>

fun startswith :: "string \<Rightarrow> string \<Rightarrow> bool" where
  "startswith [] text = True"
| "startswith (p # ps) [] = False"
| "startswith (p # ps) (c # cs) = (p = c \<and> startswith ps cs)"

fun str_in :: "string \<Rightarrow> string \<Rightarrow> bool" where
  "str_in pat [] = (pat = [])"
| "str_in pat (c # cs) = (startswith pat (c # cs) \<or> str_in pat cs)"

text \<open>\<^verbatim>\<open>sep.join(parts)\<close>.\<close>

fun join :: "string \<Rightarrow> string list \<Rightarrow> string" where
  "join sep [] = []"
| "join sep [x] = x"
| "join sep (x # y # ys) = x @ sep @ join sep (y # ys)"

text \<open>\<^verbatim>\<open>str(n)\<close> of a non-negative integer: its decimal digits.\<close>

fun str_nat :: "nat \<Rightarrow> string" where
  "str_nat n =
     (if n < 10 then [''0123456789'' ! n]
      else str_nat (n div 10) @ [''0123456789'' ! (n mod 10)])"

declare str_nat.simps [simp del]

definition nl :: string where
  "nl = [CHR 0x0A]"

subsection \<open>Data\<close>

text \<open>
  A float is only copied and printed by the workflow, never computed with; it is carried
  as its printed form, which determines it. A dictionary is an association list in
  insertion order; the values stored by the workflow are reply texts.
\<close>

type_synonym pyfloat = string

type_synonym dict = "(string \<times> string) list"

definition dict_get :: "dict \<Rightarrow> string \<Rightarrow> string \<Rightarrow> string" where
  "dict_get d k dflt = (case map_of d k of None \<Rightarrow> dflt | Some v \<Rightarrow> v)"

text \<open>
  An error is a failure of a dependency, a branch function whose answer has no edge, or
  the graph library's \<^verbatim>\<open>GraphRecursionError\<close>.
\<close>

datatype error = DependencyError string | InvalidBranch string | GraphRecursionError

datatype message = SystemMessage string | HumanMessage string | AIMessage string

text \<open>\<^verbatim>\<open>domain.models.SearchResult\<close>, what the vector search returns.\<close>

record SearchResult =
  chunk_id :: string
  document_id :: string
  content :: string
  score :: pyfloat
  metadata :: dict

text \<open>The dictionary that \<^verbatim>\<open>query_agent\<close> builds from each search result.\<close>

record result_dict =
  content :: string
  score :: pyfloat
  metadata :: dict

text \<open>The dictionary that \<^verbatim>\<open>execute\<close> returns.\<close>

record execute_result =
  answer :: string
  sources :: "result_dict list"
  metadata :: dict
  iterations :: int

record GraphState =
  messages :: "message list"
  query :: string
  search_results :: "result_dict list"
  answer :: string
  current_agent :: string
  metadata :: dict
  iteration :: int

text \<open>
  The object \<^verbatim>\<open>self\<close>. The first argument of each oracle is the number of calls
  already made to it in the run.
\<close>

record MultiAgentRAGSystem =
  llm :: "nat \<Rightarrow> message list \<Rightarrow> error + string"
  vector_search_func :: "nat \<Rightarrow> string \<Rightarrow> error + SearchResult list"
  max_iterations :: int

text \<open>What the run has asked of its dependencies so far, each call with its answer.\<close>

record world =
  llm_log :: "(message list \<times> string) list"
  search_log :: "(string \<times> SearchResult list) list"

definition llm_ainvoke ::
  "MultiAgentRAGSystem \<Rightarrow> world \<Rightarrow> message list \<Rightarrow> error + world \<times> string" where
  "llm_ainvoke self w msgs =
     (case llm self (length (llm_log w)) msgs of
        Inl e \<Rightarrow> Inl e
      | Inr response \<Rightarrow> Inr (w\<lparr>llm_log := llm_log w @ [(msgs, response)]\<rparr>, response))"

definition vector_search ::
  "MultiAgentRAGSystem \<Rightarrow> world \<Rightarrow> string \<Rightarrow> error + world \<times> SearchResult list" where
  "vector_search self w q =
     (case vector_search_func self (length (search_log w)) q of
        Inl e \<Rightarrow> Inl e
      | Inr rs \<Rightarrow> Inr (w\<lparr>search_log := search_log w @ [(q, rs)]\<rparr>, rs))"

subsection \<open>The nodes\<close>

definition router_system_prompt :: string where
  \<open>router_system_prompt =
     ''You are a routing agent. Analyze the user's query and determine:'' @ nl @
     ''        1. Does it require searching a knowledge base (RAG)?'' @ nl @
     ''        2. Or can it be answered directly (general knowledge)?'' @ nl @
     ''        '' @ nl @
     ''        Respond with JSON: {"route": "query" or "direct", "reasoning": "..."}'' @ nl @
     ''        ''\<close>

definition router_messages :: "GraphState \<Rightarrow> message list" where
  "router_messages state =
     [SystemMessage router_system_prompt, HumanMessage (''Query: '' @ query state)]"

definition router_agent ::
  "MultiAgentRAGSystem \<Rightarrow> world \<Rightarrow> GraphState \<Rightarrow> error + world \<times> GraphState" where
  "router_agent self w state =
     (case llm_ainvoke self w (router_messages state) of
        Inl e \<Rightarrow> Inl e
      | Inr (w', response) \<Rightarrow>
          Inr (w', state\<lparr>messages := messages state @ [AIMessage response],
                          current_agent := ''router'',
                          metadata := AList.update ''router_decision'' response
                                        (metadata state)\<rparr>))"

definition query_agent ::
  "MultiAgentRAGSystem \<Rightarrow> world \<Rightarrow> GraphState \<Rightarrow> error + world \<times> GraphState" where
  "query_agent self w state =
     (case vector_search self w (query state) of
        Inl e \<Rightarrow> Inl e
      | Inr (w', results) \<Rightarrow>
          Inr (w', state\<lparr>search_results :=
                            map (\<lambda>r. \<lparr>content = SearchResult.content r,
                                       score = SearchResult.score r,
                                       metadata = SearchResult.metadata r\<rparr>) results,
                          iteration := iteration state + 1,
                          current_agent := ''query''\<rparr>))"

definition evaluation_system_prompt :: string where
  \<open>evaluation_system_prompt =
     ''You are an evaluation agent. Assess if the search results '' @ nl @
     ''        are sufficient to answer the user's query. Consider:'' @ nl @
     ''        1. Relevance scores'' @ nl @
     ''        2. Content quality'' @ nl @
     ''        3. Coverage of the query'' @ nl @
     ''        '' @ nl @
     ''        Respond with JSON: {"sufficient": true/false, "reasoning": "..."}'' @ nl @
     ''        ''\<close>

definition results_summary :: "result_dict list \<Rightarrow> string" where
  "results_summary results =
     join nl (map (\<lambda>(i, r). ''Result '' @ str_nat (i + 1) @ '' (score: '' @
                              result_dict.score r @ ''): '' @
                              take 200 (result_dict.content r) @ ''...'')
                (List.enumerate 0 (take 3 results)))"

definition evaluation_messages :: "GraphState \<Rightarrow> message list" where
  "evaluation_messages state =
     [SystemMessage evaluation_system_prompt,
      HumanMessage (''Query: '' @ query state @ nl @ nl @ ''Results:'' @ nl @
                    results_summary (search_results state))]"

definition evaluation_agent ::
  "MultiAgentRAGSystem \<Rightarrow> world \<Rightarrow> GraphState \<Rightarrow> error + world \<times> GraphState" where
  "evaluation_agent self w state =
     (case llm_ainvoke self w (evaluation_messages state) of
        Inl e \<Rightarrow> Inl e
      | Inr (w', response) \<Rightarrow>
          Inr (w', state\<lparr>messages := messages state @ [AIMessage response],
                          current_agent := ''evaluation'',
                          metadata := AList.update ''evaluation'' response
                                        (metadata state)\<rparr>))"

definition response_system_prompt :: string where
  \<open>response_system_prompt =
     ''You are a helpful AI assistant. Use the provided context '' @ nl @
     ''        to answer the user's query. Be precise and cite sources when possible.'' @ nl @
     ''        If the context doesn't contain relevant information, say so.'' @ nl @
     ''        ''\<close>

definition source_block :: "nat \<times> result_dict \<Rightarrow> string" where
  "source_block = (\<lambda>(i, r). ''[Source '' @ str_nat (i + 1) @ ''] (Score: '' @
                             result_dict.score r @ '')'' @ nl @ result_dict.content r)"

definition context_blocks :: "result_dict list \<Rightarrow> string list" where
  "context_blocks results = map source_block (List.enumerate 0 (take 5 results))"

definition response_context :: "result_dict list \<Rightarrow> string" where
  "response_context results = join (nl @ nl) (context_blocks results)"

definition response_messages :: "GraphState \<Rightarrow> message list" where
  "response_messages state =
     [SystemMessage response_system_prompt,
      HumanMessage (''Context:'' @ nl @ response_context (search_results state) @
                    nl @ nl @ ''Query: '' @ query state)]"

definition response_agent ::
  "MultiAgentRAGSystem \<Rightarrow> world \<Rightarrow> GraphState \<Rightarrow> error + world \<times> GraphState" where
  "response_agent self w state =
     (case llm_ainvoke self w (response_messages state) of
        Inl e \<Rightarrow> Inl e
      | Inr (w', response) \<Rightarrow>
          Inr (w', state\<lparr>answer := response,
                          messages := messages state @ [AIMessage response],
                          current_agent := ''response''\<rparr>))"

subsection \<open>The branch functions\<close>

definition route_decision :: "GraphState \<Rightarrow> string" where
  "route_decision state =
     (let decision = dict_get (metadata state) ''router_decision'' ''''
      in if str_in ''direct'' (lower decision) then ''direct'' else ''query'')"

definition evaluation_decision :: "MultiAgentRAGSystem \<Rightarrow> GraphState \<Rightarrow> string" where
  "evaluation_decision self state =
     (if iteration state \<ge> max_iterations self then ''respond''
      else let evaluation = dict_get (metadata state) ''evaluation'' ''''
           in if str_in ''sufficient'' (lower evaluation) \<and> str_in ''true'' (lower evaluation)
              then ''respond''
              else ''refine'')"

subsection \<open>The graph\<close>

datatype node = Router_agent | Query_agent | Evaluation_agent | Response_agent | END

definition run_node ::
  "MultiAgentRAGSystem \<Rightarrow> node \<Rightarrow> world \<Rightarrow> GraphState \<Rightarrow> error + world \<times> GraphState" where
  "run_node self n w state =
     (case n of
        Router_agent \<Rightarrow> router_agent self w state
      | Query_agent \<Rightarrow> query_agent self w state
      | Evaluation_agent \<Rightarrow> evaluation_agent self w state
      | Response_agent \<Rightarrow> response_agent self w state
      | END \<Rightarrow> Inr (w, state))"

text \<open>The path maps of the two conditional edges.\<close>

definition route_edges :: "(string \<times> node) list" where
  "route_edges = [(''query'', Query_agent), (''direct'', Response_agent)]"

definition evaluation_edges :: "(string \<times> node) list" where
  "evaluation_edges = [(''refine'', Query_agent), (''respond'', Response_agent)]"

text \<open>
  The node that follows \<open>n\<close>, given the state that \<open>n\<close> returned. A branch function
  whose result is not a key of its path map has no successor.
\<close>

fun next_node :: "MultiAgentRAGSystem \<Rightarrow> node \<Rightarrow> GraphState \<Rightarrow> node option" where
  "next_node self Router_agent state = map_of route_edges (route_decision state)"
| "next_node self Query_agent state = Some Evaluation_agent"
| "next_node self Evaluation_agent state =
     map_of evaluation_edges (evaluation_decision self state)"
| "next_node self Response_agent state = Some END"
| "next_node self END state = None"

text \<open>
  A run is the list of the nodes executed, each with what it returned, and the outcome:
  the final state, or the error that ended the run.
\<close>

type_synonym trace = "(node \<times> (error + GraphState)) list"

type_synonym run = "trace \<times> (error + world \<times> GraphState)"

text \<open>
  A bound on the nodes that a walk from node \<open>n\<close> still executes: each node is nearer to
  \<^verbatim>\<open>END\<close>.
\<close>

fun steps_left :: "MultiAgentRAGSystem \<Rightarrow> node \<Rightarrow> GraphState \<Rightarrow> nat" where
  "steps_left self END state = 0"
| "steps_left self Response_agent state = 1"
| "steps_left self Evaluation_agent state =
     2 + 2 * nat (max_iterations self - iteration state)"
| "steps_left self Query_agent state =
     3 + 2 * nat (max_iterations self - iteration state - 1)"
| "steps_left self Router_agent state =
     4 + 2 * nat (max_iterations self - iteration state - 1)"

text \<open>
  The graph library stops a run that has not reached \<^verbatim>\<open>END\<close> within its recursion
  limit and raises \<^verbatim>\<open>GraphRecursionError\<close>. \<^verbatim>\<open>_build_graph\<close> compiles the graph and
  \<^verbatim>\<open>execute\<close> calls \<^verbatim>\<open>ainvoke\<close> without a configuration, so the default of the
  library applies: 25 steps, one per node executed. The constant is the library's, not the
  repository's.
\<close>

definition recursion_limit :: nat where
  "recursion_limit = 25"

text \<open>
  \<^verbatim>\<open>self.graph.ainvoke\<close>, started at node \<open>n\<close> with \<open>k\<close> steps left. A run that is
  stopped by the limit records the nodes it completed within the limit.
\<close>

fun ainvoke_from ::
  "MultiAgentRAGSystem \<Rightarrow> node \<Rightarrow> nat \<Rightarrow> world \<Rightarrow> GraphState \<Rightarrow> run" where
  "ainvoke_from self n 0 w state =
     (if n = END then ([], Inr (w, state)) else ([], Inl GraphRecursionError))"
| "ainvoke_from self n (Suc k) w state =
     (if n = END then ([], Inr (w, state))
      else case run_node self n w state of
             Inl e \<Rightarrow> ([(n, Inl e)], Inl e)
           | Inr (w', state') \<Rightarrow>
               (case next_node self n state' of
                  None \<Rightarrow> ([(n, Inr state')], Inl (InvalidBranch ''no edge''))
                | Some n' \<Rightarrow>
                    (case ainvoke_from self n' k w' state' of
                       (tr, out) \<Rightarrow> ((n, Inr state') # tr, out))))"

declare ainvoke_from.simps [simp del]

subsection \<open>The entry point\<close>

definition initial_state :: "string \<Rightarrow> GraphState" where
  "initial_state q =
     \<lparr>messages = [], query = q, search_results = [], answer = '''', current_agent = '''',
      metadata = [], iteration = 0\<rparr>"

definition initial_world :: world where
  "initial_world = \<lparr>llm_log = [], search_log = []\<rparr>"

definition run_of :: "MultiAgentRAGSystem \<Rightarrow> string \<Rightarrow> run" where
  "run_of self q =
     ainvoke_from self Router_agent recursion_limit initial_world (initial_state q)"

definition execute :: "MultiAgentRAGSystem \<Rightarrow> string \<Rightarrow> error + execute_result" where
  "execute self q =
     (case snd (run_of self q) of
        Inl e \<Rightarrow> Inl e
      | Inr (w, final_state) \<Rightarrow>
          Inr \<lparr>execute_result.answer = answer final_state,
               sources = search_results final_state,
               execute_result.metadata = metadata final_state,
               iterations = iteration final_state\<rparr>)"

subsection \<open>Vocabulary of the properties\<close>

text \<open>
  A text contains a pattern case-insensitively when some stretch of it is the pattern once
  lowered. The patterns of the workflow are lower-case literals.
\<close>

definition contains_ci :: "string \<Rightarrow> string \<Rightarrow> bool" where
  "contains_ci pat s = (\<exists>u m v. s = u @ m @ v \<and> lower m = pat)"

text \<open>The nodes of a trace, and the states its nodes returned.\<close>

definition nodes_of :: "trace \<Rightarrow> node list" where
  "nodes_of tr = map fst tr"

fun states_of :: "trace \<Rightarrow> GraphState list" where
  "states_of [] = []"
| "states_of ((n, Inl e) # tr) = states_of tr"
| "states_of ((n, Inr state) # tr) = state # states_of tr"

text \<open>
  Along a trace that starts with the counter at \<open>i\<close>, the query node adds one to the
  counter and every other node leaves it as it is.
\<close>

fun iteration_steps :: "int \<Rightarrow> trace \<Rightarrow> bool" where
  "iteration_steps i [] = True"
| "iteration_steps i ((n, Inl e) # tr) = iteration_steps i tr"
| "iteration_steps i ((n, Inr state) # tr) =
     (iteration state = (if n = Query_agent then i + 1 else i)
      \<and> iteration_steps (iteration state) tr)"

text \<open>The answers of the evaluation branch function along a trace, one per evaluation pass.\<close>

fun evaluation_decisions :: "MultiAgentRAGSystem \<Rightarrow> trace \<Rightarrow> string list" where
  "evaluation_decisions self [] = []"
| "evaluation_decisions self ((n, Inl e) # tr) = evaluation_decisions self tr"
| "evaluation_decisions self ((n, Inr state) # tr) =
     (if n = Evaluation_agent then [evaluation_decision self state] else [])
     @ evaluation_decisions self tr"

text \<open>How many passes of the query node a walk from node \<open>n\<close> can still make.\<close>

fun passes_left :: "MultiAgentRAGSystem \<Rightarrow> node \<Rightarrow> GraphState \<Rightarrow> nat" where
  "passes_left self END state = 0"
| "passes_left self Response_agent state = 0"
| "passes_left self Evaluation_agent state = nat (max_iterations self - iteration state)"
| "passes_left self Query_agent state = 1 + nat (max_iterations self - iteration state - 1)"
| "passes_left self Router_agent state = 1 + nat (max_iterations self - iteration state - 1)"

text \<open>Dependencies for examples: a language model that reads its replies from a list.\<close>

definition scripted_llm :: "string list \<Rightarrow> nat \<Rightarrow> message list \<Rightarrow> error + string" where
  "scripted_llm replies i msgs =
     (if i < length replies then Inr (replies ! i)
      else Inl (DependencyError ''no reply''))"

definition demo_system :: "string list \<Rightarrow> SearchResult list \<Rightarrow> int \<Rightarrow> MultiAgentRAGSystem" where
  "demo_system replies results n =
     \<lparr>llm = scripted_llm replies, vector_search_func = (\<lambda>i q. Inr results),
      max_iterations = n\<rparr>"

definition demo_state :: "int \<Rightarrow> dict \<Rightarrow> GraphState" where
  "demo_state i md = (initial_state ''q'')\<lparr>metadata := md, iteration := i\<rparr>"

definition demo_results :: "SearchResult list" where
  "demo_results =
     [\<lparr>chunk_id = ''c1'', document_id = ''d1'', SearchResult.content = ''Document X is about graphs.'',
       SearchResult.score = ''0.91'', SearchResult.metadata = [(''page'', ''1'')]\<rparr>,
      \<lparr>chunk_id = ''c2'', document_id = ''d1'', SearchResult.content = ''It has four nodes.'',
       SearchResult.score = ''0.84'', SearchResult.metadata = []\<rparr>]"

text \<open>
  The router asks for retrieval and the evaluator is never satisfied, whatever the limit
  \<open>n\<close> of the engine is.
\<close>

definition never_satisfied :: "int \<Rightarrow> MultiAgentRAGSystem" where
  "never_satisfied n =
     \<lparr>llm = (\<lambda>i msgs. Inr (if i = 0 then ''route: query'' else ''sufficient: false'')),
      vector_search_func = (\<lambda>i q. Inr demo_results),
      max_iterations = n\<rparr>"

text \<open>The evaluator is never satisfied; the limit is 2.\<close>

definition refine_twice :: MultiAgentRAGSystem where
  "refine_twice =
     demo_system [''route: query'', ''sufficient: false'', ''sufficient: false'', ''The answer.'']
       demo_results 2"

text \<open>The router sends the query straight to the response node.\<close>

definition direct_answer :: MultiAgentRAGSystem where
  "direct_answer =
     demo_system [''route: direct, reasoning: general knowledge'',
                  ''Plants turn light into sugar.''] demo_results 10"

text \<open>The vector search fails.\<close>

definition search_down :: MultiAgentRAGSystem where
  "search_down =
     \<lparr>llm = scripted_llm [''route: query''],
      vector_search_func = (\<lambda>i q. Inl (DependencyError ''index unreachable'')),
      max_iterations = 10\<rparr>"

text \<open>A state whose counter has reached the limit 2, after one call to the language model.\<close>

definition at_limit :: GraphState where
  "at_limit = (initial_state ''q'')\<lparr>messages := [AIMessage ''route: query''],
      metadata := [(''router_decision'', ''route: query'')], iteration := 2\<rparr>"

definition one_call :: world where
  "one_call = \<lparr>llm_log = [(router_messages (initial_state ''q''), ''route: query'')],
                search_log = []\<rparr>"

text \<open>Twelve search results, numbered from 1.\<close>

definition twelve_results :: "result_dict list" where
  "twelve_results =
     map (\<lambda>i. \<lparr>result_dict.content = ''chunk '' @ str_nat i, result_dict.score = ''0.5'',
               result_dict.metadata = []\<rparr>) [1..<13]"

section \<open>Every step brings the walk nearer to its end\<close>

lemma router_agent_iteration:
  "router_agent self w state = Inr (w', state') \<Longrightarrow> iteration state' = iteration state"
  by (auto simp: router_agent_def split: sum.splits prod.splits)

lemma query_agent_iteration:
  "query_agent self w state = Inr (w', state') \<Longrightarrow> iteration state' = iteration state + 1"
  by (auto simp: query_agent_def split: sum.splits prod.splits)

lemma evaluation_agent_iteration:
  "evaluation_agent self w state = Inr (w', state') \<Longrightarrow> iteration state' = iteration state"
  by (auto simp: evaluation_agent_def split: sum.splits prod.splits)

lemma response_agent_iteration:
  "response_agent self w state = Inr (w', state') \<Longrightarrow> iteration state' = iteration state"
  by (auto simp: response_agent_def split: sum.splits prod.splits)

lemma refine_below_limit:
  "map_of evaluation_edges (evaluation_decision self state) = Some Query_agent
   \<Longrightarrow> iteration state < max_iterations self"
  by (auto simp: evaluation_edges_def evaluation_decision_def Let_def split: if_splits)

lemma route_edges_cases:
  "map_of route_edges k = Some n \<Longrightarrow> n = Query_agent \<or> n = Response_agent"
  by (auto simp: route_edges_def split: if_splits)

lemma evaluation_edges_cases:
  "map_of evaluation_edges k = Some n \<Longrightarrow> n = Query_agent \<or> n = Response_agent"
  by (auto simp: evaluation_edges_def split: if_splits)

lemma steps_left_decreases:
  assumes "run_node self n w state = Inr (w', state')"
    and "next_node self n state' = Some n'"
  shows "steps_left self n' state' < steps_left self n state"
proof (cases n)
  case Router_agent
  with assms have it: "iteration state' = iteration state"
    by (simp add: run_node_def router_agent_iteration)
  from Router_agent assms(2) have "n' = Query_agent \<or> n' = Response_agent"
    by (auto dest: route_edges_cases)
  with Router_agent it show ?thesis by auto
next
  case Query_agent
  with assms have "iteration state' = iteration state + 1" and "n' = Evaluation_agent"
    by (auto simp: run_node_def query_agent_iteration)
  with Query_agent show ?thesis by simp
next
  case Evaluation_agent
  with assms have it: "iteration state' = iteration state"
    by (simp add: run_node_def evaluation_agent_iteration)
  from Evaluation_agent assms(2) have "n' = Query_agent \<or> n' = Response_agent"
    by (auto dest: evaluation_edges_cases)
  then show ?thesis
  proof
    assume q: "n' = Query_agent"
    with Evaluation_agent assms(2) have "iteration state' < max_iterations self"
      by (simp add: refine_below_limit)
    with q it Evaluation_agent show ?thesis by simp
  next
    assume "n' = Response_agent"
    with Evaluation_agent show ?thesis by simp
  qed
next
  case Response_agent
  with assms have "n' = END" by simp
  with Response_agent show ?thesis by simp
next
  case END
  with assms show ?thesis by simp
qed

section \<open>The branch functions decide by substring\<close>

lemma startswith_iff: "startswith pat s = (\<exists>v. s = pat @ v)"
  by (induction pat s rule: startswith.induct) auto

lemma str_in_iff: "str_in pat s = (\<exists>u v. s = u @ pat @ v)"
proof (induction s)
  case Nil
  then show ?case by auto
next
  case (Cons c cs)
  show ?case
  proof
    assume "str_in pat (c # cs)"
    then consider "startswith pat (c # cs)" | "str_in pat cs" by auto
    then show "\<exists>u v. c # cs = u @ pat @ v"
    proof cases
      case 1
      then obtain v where "c # cs = pat @ v" by (auto simp: startswith_iff)
      then have "c # cs = [] @ pat @ v" by simp
      then show ?thesis by blast
    next
      case 2
      with Cons obtain u v where "cs = u @ pat @ v" by auto
      then have "c # cs = (c # u) @ pat @ v" by simp
      then show ?thesis by blast
    qed
  next
    assume "\<exists>u v. c # cs = u @ pat @ v"
    then obtain u v where uv: "c # cs = u @ pat @ v" by blast
    show "str_in pat (c # cs)"
    proof (cases u)
      case Nil
      with uv have "startswith pat (c # cs)" by (auto simp: startswith_iff)
      then show ?thesis by simp
    next
      case (Cons a u')
      with uv have "cs = u' @ pat @ v" by simp
      with Cons.IH have "str_in pat cs" by blast
      then show ?thesis by simp
    qed
  qed
qed

lemma contains_ci_iff: "contains_ci pat s = str_in pat (lower s)"
proof
  assume "contains_ci pat s"
  then obtain u m v where "s = u @ m @ v" "lower m = pat"
    by (auto simp: contains_ci_def)
  then have "lower s = lower u @ pat @ lower v" by (auto simp: lower_def)
  then show "str_in pat (lower s)" unfolding str_in_iff by blast
next
  assume "str_in pat (lower s)"
  then obtain u v where "map lower_char s = u @ pat @ v"
    by (auto simp: str_in_iff lower_def)
  then obtain a r where a: "s = a @ r" "map lower_char r = pat @ v"
    by (metis map_eq_append_conv)
  then obtain b c where "r = b @ c" "map lower_char b = pat"
    by (metis map_eq_append_conv)
  with a have "s = a @ b @ c" "map lower_char b = pat" by simp_all
  then show "contains_ci pat s" by (auto simp: contains_ci_def lower_def)
qed

text \<open>
  C1. On every state, \<^verbatim>\<open>_evaluation_decision\<close> returns "respond" when the counter has
  reached \<open>max_iterations\<close>, whatever the recorded evaluation says; below the limit it
  returns "respond" exactly when the recorded evaluation (the empty text when none is
  recorded) contains both "sufficient" and "true" case-insensitively, and "refine" in
  every other case.
\<close>

theorem evaluation_decision_rule:
  "evaluation_decision self state =
     (if iteration state \<ge> max_iterations self then ''respond''
      else if contains_ci ''sufficient'' (dict_get (metadata state) ''evaluation'' '''')
              \<and> contains_ci ''true'' (dict_get (metadata state) ''evaluation'' '''')
           then ''respond''
           else ''refine'')"
  by (simp add: evaluation_decision_def contains_ci_iff Let_def)

theorem evaluation_decision_rule_witness:
  "evaluation_decision (demo_system [] [] 3) (demo_state 3 [(''evaluation'', ''no'')])
     = ''respond''
   \<and> evaluation_decision (demo_system [] [] 3)
         (demo_state 1 [(''evaluation'', ''Sufficient: TRUE'')]) = ''respond''
   \<and> evaluation_decision (demo_system [] [] 3)
         (demo_state 1 [(''evaluation'', ''sufficient: false'')]) = ''refine''
   \<and> evaluation_decision (demo_system [] [] 3) (demo_state 1 []) = ''refine''"
  by (simp add: evaluation_decision_rule contains_ci_iff demo_system_def demo_state_def
      initial_state_def dict_get_def lower_def lower_char_def)

text \<open>
  C2. On every state, \<^verbatim>\<open>_route_decision\<close> answers "direct" exactly when the recorded
  router reply (the empty text when none is recorded) contains "direct"
  case-insensitively, and the conditional edge then leads to the response node; for every
  other reply it answers "query" and the edge leads to the query node. The empty text does
  not contain "direct".
\<close>

theorem route_decision_rule:
  "route_decision state =
     (if contains_ci ''direct'' (dict_get (metadata state) ''router_decision'' '''')
      then ''direct'' else ''query'')
   \<and> next_node self Router_agent state =
     Some (if contains_ci ''direct'' (dict_get (metadata state) ''router_decision'' '''')
           then Response_agent else Query_agent)
   \<and> \<not> contains_ci ''direct'' ''''"
  by (simp add: route_decision_def contains_ci_iff Let_def route_edges_def lower_def)

theorem route_decision_rule_witness:
  "next_node (demo_system [] [] 3) Router_agent
     (demo_state 0 [(''router_decision'', ''route: DIRECT, reasoning: general knowledge'')])
     = Some Response_agent
   \<and> next_node (demo_system [] [] 3) Router_agent
     (demo_state 0 [(''router_decision'', ''route: query'')]) = Some Query_agent
   \<and> next_node (demo_system [] [] 3) Router_agent (demo_state 0 []) = Some Query_agent"
  using route_decision_rule [of "demo_state 0 [(''router_decision'', ''route: DIRECT, reasoning: general knowledge'')]" "demo_system [] [] 3"]
    route_decision_rule [of "demo_state 0 [(''router_decision'', ''route: query'')]" "demo_system [] [] 3"]
    route_decision_rule [of "demo_state 0 []" "demo_system [] [] 3"]
  by (simp add: contains_ci_iff demo_state_def initial_state_def dict_get_def lower_def
      lower_char_def del: next_node.simps)

section \<open>Walks of the graph\<close>

lemma ainvoke_from_END: "ainvoke_from self END k w state = ([], Inr (w, state))"
  by (cases k) (simp_all add: ainvoke_from.simps)

lemma ainvoke_from_out_of_steps:
  "n \<noteq> END \<Longrightarrow> ainvoke_from self n 0 w state = ([], Inl GraphRecursionError)"
  by (simp add: ainvoke_from.simps)

lemma ainvoke_from_fail:
  "n \<noteq> END \<Longrightarrow> run_node self n w state = Inl e
   \<Longrightarrow> ainvoke_from self n (Suc k) w state = ([(n, Inl e)], Inl e)"
  by (simp add: ainvoke_from.simps)

lemma ainvoke_from_step:
  "n \<noteq> END \<Longrightarrow> run_node self n w state = Inr (w', state')
   \<Longrightarrow> next_node self n state' = Some n'
   \<Longrightarrow> ainvoke_from self n (Suc k) w state =
       ((n, Inr state') # fst (ainvoke_from self n' k w' state'),
        snd (ainvoke_from self n' k w' state'))"
  by (simp add: ainvoke_from.simps case_prod_beta)

lemma next_node_END:
  "next_node self n state = Some END \<Longrightarrow> n = Response_agent"
  by (cases n) (auto simp: route_edges_def evaluation_edges_def split: if_splits)

lemma next_node_None:
  "next_node self n state = None \<Longrightarrow> n = END"
  by (cases n)
    (auto simp: route_edges_def evaluation_edges_def route_decision_def
      evaluation_decision_def Let_def split: if_splits)

text \<open>
  Induction along the walk: it is at \<^verbatim>\<open>END\<close>, or out of steps, or its node fails, or
  its node returns a state and the walk goes on from the next node with one step less.
\<close>

lemma walk_induct [case_names at_end out_of_steps failed step]:
  assumes "\<And>k w state. P END k w state"
    and "\<And>n w state. n \<noteq> END \<Longrightarrow> P n 0 w state"
    and "\<And>n k w state e. n \<noteq> END \<Longrightarrow> run_node self n w state = Inl e
       \<Longrightarrow> P n (Suc k) w state"
    and "\<And>n k w state w' state' n'. n \<noteq> END
       \<Longrightarrow> run_node self n w state = Inr (w', state')
       \<Longrightarrow> next_node self n state' = Some n' \<Longrightarrow> P n' k w' state'
       \<Longrightarrow> P n (Suc k) w state"
  shows "P n k w s"
proof -
  have "\<forall>n w s. P n k w s"
  proof (induction k)
    case 0
    show ?case
    proof (intro allI)
      fix n w s
      show "P n 0 w s" by (cases "n = END") (auto intro: assms(1,2))
    qed
  next
    case (Suc k)
    show ?case
    proof (intro allI)
      fix n w s
      show "P n (Suc k) w s"
      proof (cases "n = END")
        case True
        then show ?thesis by (simp add: assms(1))
      next
        case nE: False
        show ?thesis
        proof (cases "run_node self n w s")
          case (Inl e)
          with nE show ?thesis by (rule assms(3))
        next
          case (Inr p)
          obtain w' s' where "p = (w', s')" by (cases p)
          with Inr have run: "run_node self n w s = Inr (w', s')" by simp
          from nE obtain n' where nx: "next_node self n s' = Some n'"
            using next_node_None [of self n s'] by (cases "next_node self n s'") auto
          from Suc.IH have "P n' k w' s'" by blast
          with nE run nx show ?thesis by (rule assms(4))
        qed
      qed
    qed
  qed
  then show ?thesis by blast
qed

lemma trace_invariant:
  assumes start: "I n state"
    and keep: "\<And>n w state w' state' n'. I n state \<Longrightarrow> n \<noteq> END
        \<Longrightarrow> run_node self n w state = Inr (w', state')
        \<Longrightarrow> next_node self n state' = Some n' \<Longrightarrow> I n' state'"
    and post: "\<And>n w state w' state'. I n state \<Longrightarrow> n \<noteq> END
        \<Longrightarrow> run_node self n w state = Inr (w', state') \<Longrightarrow> Q n state'"
    and mem: "(m, Inr s) \<in> set (fst (ainvoke_from self n k w state))"
  shows "Q m s"
  using start mem
proof (induction n k w state rule: walk_induct [where self = self])
  case (at_end k w state)
  then show ?case by (simp add: ainvoke_from_END)
next
  case (out_of_steps n w state)
  then show ?case by (simp add: ainvoke_from_out_of_steps)
next
  case (failed n k w state e)
  then show ?case by (simp add: ainvoke_from_fail)
next
  case (step n k w state w' state' n')
  have q: "Q n state'" using post [OF step.prems(1) step.hyps(1,2)] .
  have I': "I n' state'" using keep [OF step.prems(1) step.hyps(1,2,3)] .
  from step.prems(2) have
    "(m, Inr s) = (n, Inr state') \<or> (m, Inr s) \<in> set (fst (ainvoke_from self n' k w' state'))"
    by (simp add: ainvoke_from_step [OF step.hyps(1,2,3)])
  then show ?case
  proof
    assume "(m, Inr s) = (n, Inr state')"
    with q show ?thesis by simp
  next
    assume "(m, Inr s) \<in> set (fst (ainvoke_from self n' k w' state'))"
    with step.IH [OF I'] show ?thesis .
  qed
qed

section \<open>The iteration counter\<close>

lemma run_node_iteration:
  "run_node self n w state = Inr (w', state')
   \<Longrightarrow> iteration state' = (if n = Query_agent then iteration state + 1 else iteration state)"
  by (cases n)
    (auto simp: run_node_def dest: router_agent_iteration query_agent_iteration
      evaluation_agent_iteration response_agent_iteration)

lemma walk_iteration_steps:
  "iteration_steps (iteration state) (fst (ainvoke_from self n k w state))"
proof (induction n k w state rule: walk_induct [where self = self])
  case (at_end k w state)
  show ?case by (simp add: ainvoke_from_END)
next
  case (out_of_steps n w state)
  then show ?case by (simp add: ainvoke_from_out_of_steps)
next
  case (failed n k w state e)
  then show ?case by (simp add: ainvoke_from_fail)
next
  case (step n k w state w' state' n')
  from step.IH run_node_iteration [OF step.hyps(2)] show ?case
    by (simp add: ainvoke_from_step [OF step.hyps(1,2,3)])
qed

lemma iteration_steps_sorted:
  "iteration_steps i tr \<Longrightarrow> sorted (i # map iteration (states_of tr))"
proof (induction tr arbitrary: i)
  case Nil
  then show ?case by simp
next
  case (Cons x tr)
  obtain n r where x: "x = (n, r)" by (cases x)
  show ?case
  proof (cases r)
    case (Inl e)
    with Cons x show ?thesis by simp
  next
    case (Inr s)
    with Cons.prems x have le: "i \<le> iteration s" and rest: "iteration_steps (iteration s) tr"
      by (auto split: if_splits)
    from Cons.IH [OF rest] have "sorted (iteration s # map iteration (states_of tr))" .
    with le Inr x show ?thesis by auto
  qed
qed

lemma states_of_mem: "s \<in> set (states_of tr) = (\<exists>m. (m, Inr s) \<in> set tr)"
  by (induction tr rule: states_of.induct) auto

text \<open>
  Any bound \<open>b\<close> at or above the limit that holds strictly when the walk is at the router
  or at the query node holds for every state of the walk.
\<close>

lemma walk_iteration_bound:
  assumes b: "max_iterations self \<le> b"
    and start: "(n = Router_agent \<or> n = Query_agent \<longrightarrow> iteration state < b) \<and> iteration state \<le> b"
    and mem: "s \<in> set (states_of (fst (ainvoke_from self n k w state)))"
  shows "iteration s \<le> b"
proof -
  let ?I = "\<lambda>n state. (n = Router_agent \<or> n = Query_agent \<longrightarrow> iteration state < b) \<and> iteration state \<le> b"
  from mem obtain m where m: "(m, Inr s) \<in> set (fst (ainvoke_from self n k w state))"
    by (auto simp: states_of_mem)
  show ?thesis
  proof (rule trace_invariant [where self = self and I = ?I and Q = "\<lambda>n state. iteration state \<le> b", OF start _ _ m])
    fix n w state w' state' n'
    assume I: "?I n state" and nE: "n \<noteq> END" and run: "run_node self n w state = Inr (w', state')"
      and nx: "next_node self n state' = Some n'"
    note it = run_node_iteration [OF run]
    show "?I n' state'"
    proof (cases n)
      case Router_agent
      with I it nx show ?thesis by (auto dest: route_edges_cases)
    next
      case Query_agent
      with I it nx show ?thesis by auto
    next
      case Evaluation_agent
      with nx have "n' = Query_agent \<longrightarrow> iteration state' < max_iterations self"
        by (auto dest: refine_below_limit)
      moreover from Evaluation_agent nx have "n' = Query_agent \<or> n' = Response_agent"
        by (auto dest: evaluation_edges_cases)
      ultimately show ?thesis using I it b Evaluation_agent by auto
    next
      case Response_agent
      with I it nx show ?thesis by auto
    next
      case END
      with nE show ?thesis by simp
    qed
  next
    fix n w state w' state'
    assume I: "?I n state" and nE: "n \<noteq> END" and run: "run_node self n w state = Inr (w', state')"
    from run_node_iteration [OF run] I show "iteration state' \<le> b"
      by (cases n) auto
  qed
qed

text \<open>
  C3. In every run of \<^verbatim>\<open>execute\<close> with a limit that is not negative, the counter starts
  at 0; along the nodes executed, the query node adds exactly one to it and no other node
  changes it, so it never decreases; and it never exceeds \<open>max_iterations + 1\<close>.
\<close>

theorem iteration_counter:
  assumes "0 \<le> max_iterations self"
  shows "iteration (initial_state q) = 0
    \<and> iteration_steps 0 (fst (run_of self q))
    \<and> sorted (map iteration (initial_state q # states_of (fst (run_of self q))))
    \<and> (\<forall>s \<in> set (states_of (fst (run_of self q))). iteration s \<le> max_iterations self + 1)"
proof -
  have i0: "iteration (initial_state q) = 0" by (simp add: initial_state_def)
  have st: "iteration_steps 0 (fst (run_of self q))"
    using walk_iteration_steps [where state = "initial_state q" and self = self
        and n = Router_agent and w = initial_world and k = recursion_limit]
    by (simp add: run_of_def i0)
  have so: "sorted (map iteration (initial_state q # states_of (fst (run_of self q))))"
    using iteration_steps_sorted [OF st] by (simp add: i0)
  have bd: "iteration s \<le> max_iterations self + 1"
    if "s \<in> set (states_of (fst (run_of self q)))" for s
    using that assms i0
    by (intro walk_iteration_bound [where self = self and n = Router_agent
          and w = initial_world and state = "initial_state q" and k = recursion_limit])
       (auto simp: run_of_def)
  from i0 st so bd show ?thesis by blast
qed

lemma refine_twice_iterations:
  "map iteration (states_of (fst (run_of refine_twice ''q''))) = [0, 1, 1, 2, 2, 2]"
  by code_simp

lemma refine_twice_nodes:
  "nodes_of (fst (run_of refine_twice ''q'')) =
     [Router_agent, Query_agent, Evaluation_agent, Query_agent, Evaluation_agent, Response_agent]"
  by code_simp

lemma refine_twice_execute:
  "map_sum (\<lambda>e. ()) iterations (execute refine_twice ''q'') = Inr 2"
  by code_simp

lemma refine_twice_limit: "max_iterations refine_twice = 2"
  by (simp add: refine_twice_def demo_system_def)

theorem iteration_counter_witness:
  "0 \<le> max_iterations refine_twice
   \<and> map iteration (states_of (fst (run_of refine_twice ''q''))) = [0, 1, 1, 2, 2, 2]
   \<and> iteration_steps 0 (fst (run_of refine_twice ''q''))
   \<and> sorted (map iteration (initial_state ''q'' # states_of (fst (run_of refine_twice ''q''))))
   \<and> list_all (\<lambda>s. iteration s \<le> max_iterations refine_twice + 1)
        (states_of (fst (run_of refine_twice ''q'')))"
proof -
  have h: "0 \<le> max_iterations refine_twice" by (simp add: refine_twice_limit)
  from iteration_counter [OF h, of "''q''"] refine_twice_iterations h show ?thesis
    by (simp add: list_all_iff)
qed

lemma walk_success_last:
  "n \<noteq> END \<Longrightarrow> snd (ainvoke_from self n k w state) = Inr (w', state')
   \<Longrightarrow> fst (ainvoke_from self n k w state) \<noteq> []
     \<and> last (fst (ainvoke_from self n k w state)) = (Response_agent, Inr state')
     \<and> llm_log w' \<noteq> []
     \<and> last (llm_log w') = (response_messages state', answer state')"
proof (induction n k w state rule: walk_induct [where self = self])
  case (at_end k w state)
  then show ?case by simp
next
  case (out_of_steps n w state)
  then show ?case by (simp add: ainvoke_from_out_of_steps)
next
  case (failed n k w state e)
  then show ?case by (simp add: ainvoke_from_fail)
next
  case (step n k w state w1 s1 n')
  note unf = ainvoke_from_step [OF step.hyps(1,2,3)]
  show ?case
  proof (cases "n' = END")
    case True
    with step.hyps(3) have n: "n = Response_agent" by (auto dest: next_node_END)
    from True unf step.prems(2) have eq: "w' = w1" "state' = s1"
      by (simp_all add: ainvoke_from_END)
    from n step.hyps(2) have "response_agent self w state = Inr (w1, s1)"
      by (simp add: run_node_def)
    then have "llm_log w1 \<noteq> [] \<and> last (llm_log w1) = (response_messages s1, answer s1)"
      by (auto simp: response_agent_def llm_ainvoke_def response_messages_def
          split: sum.splits)
    with True unf eq n show ?thesis by (simp add: ainvoke_from_END)
  next
    case False
    from unf step.prems(2) have "snd (ainvoke_from self n' k w1 s1) = Inr (w', state')"
      by simp
    from step.IH [OF False this] unf show ?thesis by simp
  qed
qed

lemma execute_Inr:
  "execute self q = Inr res \<Longrightarrow>
     \<exists>w state. snd (run_of self q) = Inr (w, state)
       \<and> res = \<lparr>execute_result.answer = answer state, sources = search_results state,
                 execute_result.metadata = metadata state, iterations = iteration state\<rparr>"
  by (auto simp: execute_def split: sum.splits)

lemma run_success_last:
  assumes "snd (run_of self q) = Inr (w, state)"
  shows "fst (run_of self q) \<noteq> []"
    and "last (fst (run_of self q)) = (Response_agent, Inr state)"
    and "llm_log w \<noteq> []"
    and "last (llm_log w) = (response_messages state, answer state)"
  using assms
    walk_success_last [where n = Router_agent and self = self and w = initial_world
      and state = "initial_state q" and k = recursion_limit and w' = w and state' = state]
  by (simp_all add: run_of_def)

lemma run_final_state:
  assumes "snd (run_of self q) = Inr (w, state)"
  shows "state \<in> set (states_of (fst (run_of self q)))"
proof -
  from run_success_last(1,2) [OF assms]
  have "(Response_agent, Inr state) \<in> set (fst (run_of self q))"
    by (metis last_in_set)
  then show ?thesis by (auto simp: states_of_mem)
qed

text \<open>
  C10. In every run with \<open>max_iterations \<ge> 1\<close> the counter never exceeds
  \<open>max_iterations\<close> itself, and neither does the count that \<^verbatim>\<open>execute\<close> returns:
  "refine" is chosen only below the limit, and each pass of the query node adds exactly one.
\<close>

theorem iteration_within_limit:
  assumes "1 \<le> max_iterations self"
  shows "(\<forall>s \<in> set (states_of (fst (run_of self q))). iteration s \<le> max_iterations self)
    \<and> (\<forall>res. execute self q = Inr res \<longrightarrow> iterations res \<le> max_iterations self)
    \<and> (\<forall>state. evaluation_decision self state = ''refine''
          \<longrightarrow> iteration state < max_iterations self)
    \<and> (\<forall>w state w' state'. query_agent self w state = Inr (w', state')
          \<longrightarrow> iteration state' = iteration state + 1)"
proof -
  have bd: "iteration s \<le> max_iterations self"
    if "s \<in> set (states_of (fst (run_of self q)))" for s
    using that assms
    by (intro walk_iteration_bound [where self = self and n = Router_agent
          and w = initial_world and state = "initial_state q" and k = recursion_limit])
       (auto simp: run_of_def initial_state_def)
  have ex: "iterations res \<le> max_iterations self" if "execute self q = Inr res" for res
  proof -
    from execute_Inr [OF that] obtain w state where
      "snd (run_of self q) = Inr (w, state)" "iterations res = iteration state" by auto
    with run_final_state bd show ?thesis by metis
  qed
  have rf: "iteration state < max_iterations self"
    if "evaluation_decision self state = ''refine''" for state
    using that by (auto simp: evaluation_decision_def Let_def split: if_splits)
  from bd ex rf query_agent_iteration show ?thesis by blast
qed

theorem iteration_within_limit_witness:
  "1 \<le> max_iterations refine_twice
   \<and> list_all (\<lambda>s. iteration s \<le> max_iterations refine_twice)
        (states_of (fst (run_of refine_twice ''q'')))
   \<and> (\<exists>res. execute refine_twice ''q'' = Inr res
          \<and> iterations res \<le> max_iterations refine_twice)"
proof -
  have h: "1 \<le> max_iterations refine_twice" by (simp add: refine_twice_limit)
  from refine_twice_execute obtain res where "execute refine_twice ''q'' = Inr res"
    by (cases "execute refine_twice ''q''") auto
  with iteration_within_limit [OF h, of "''q''"] h show ?thesis
    by (auto simp: list_all_iff)
qed

text \<open>How a walk ends.\<close>

lemma walk_error:
  "(m, Inl e) \<in> set (fst (ainvoke_from self n k w state))
   \<Longrightarrow> last (fst (ainvoke_from self n k w state)) = (m, Inl e)
     \<and> snd (ainvoke_from self n k w state) = Inl e"
proof (induction n k w state rule: walk_induct [where self = self])
  case (at_end k w state)
  then show ?case by (simp add: ainvoke_from_END)
next
  case (out_of_steps n w state)
  then show ?case by (simp add: ainvoke_from_out_of_steps)
next
  case (failed n k w state e')
  then show ?case by (simp add: ainvoke_from_fail)
next
  case (step n k w state w' state' n')
  note unf = ainvoke_from_step [OF step.hyps(1,2,3)]
  from step.prems unf have mem: "(m, Inl e) \<in> set (fst (ainvoke_from self n' k w' state'))"
    by simp
  then have "fst (ainvoke_from self n' k w' state') \<noteq> []" by auto
  with step.IH [OF mem] unf show ?case by simp
qed

lemma walk_error_source:
  "snd (ainvoke_from self n k w state) = Inl e
   \<Longrightarrow> (\<exists>m. (m, Inl e) \<in> set (fst (ainvoke_from self n k w state)))
       \<or> e = GraphRecursionError"
proof (induction n k w state rule: walk_induct [where self = self])
  case (at_end k w state)
  then show ?case by (simp add: ainvoke_from_END)
next
  case (out_of_steps n w state)
  then show ?case by (simp add: ainvoke_from_out_of_steps)
next
  case (failed n k w state e')
  then show ?case by (simp add: ainvoke_from_fail)
next
  case (step n k w state w' state' n')
  note unf = ainvoke_from_step [OF step.hyps(1,2,3)]
  from step.prems unf have "snd (ainvoke_from self n' k w' state') = Inl e" by simp
  from step.IH [OF this] unf show ?case by auto
qed

lemma run_ends:
  "(\<exists>w s. snd (run_of self q) = Inr (w, s)
        \<and> last (fst (run_of self q)) = (Response_agent, Inr s))
   \<or> (\<exists>n e. snd (run_of self q) = Inl e \<and> last (fst (run_of self q)) = (n, Inl e))
   \<or> snd (run_of self q) = Inl GraphRecursionError"
proof (cases "snd (run_of self q)")
  case (Inl e)
  from walk_error_source [where self = self and n = Router_agent and w = initial_world
      and state = "initial_state q" and k = recursion_limit and e = e] Inl
  consider m where "(m, Inl e) \<in> set (fst (run_of self q))" | "e = GraphRecursionError"
    by (auto simp: run_of_def)
  then show ?thesis
  proof cases
    case 1
    then have "last (fst (run_of self q)) = (m, Inl e)"
      using walk_error [where m = m and e = e and self = self and n = Router_agent
          and w = initial_world and state = "initial_state q" and k = recursion_limit]
      by (simp add: run_of_def)
    with Inl show ?thesis by blast
  next
    case 2
    with Inl show ?thesis by simp
  qed
next
  case (Inr p)
  obtain w s where "p = (w, s)" by (cases p)
  with Inr have out: "snd (run_of self q) = Inr (w, s)" by simp
  from run_success_last(2) [OF this] out show ?thesis by blast
qed

section \<open>The bounded refinement loop\<close>

lemma dict_get_update: "dict_get (AList.update k v d) k dflt = v"
  by (simp add: dict_get_def update_conv')

lemma walk_length:
  "length (fst (ainvoke_from self n k w state)) \<le> steps_left self n state"
proof (induction n k w state rule: walk_induct [where self = self])
  case (at_end k w state)
  show ?case by (simp add: ainvoke_from_END)
next
  case (out_of_steps n w state)
  then show ?case by (simp add: ainvoke_from_out_of_steps)
next
  case (failed n k w state e)
  then have "1 \<le> steps_left self n state" by (cases n) auto
  with failed show ?case by (simp add: ainvoke_from_fail)
next
  case (step n k w state w' state' n')
  from step.IH steps_left_decreases [OF step.hyps(2,3)]
  show ?case by (simp add: ainvoke_from_step [OF step.hyps(1,2,3)])
qed

lemma walk_length_steps:
  "length (fst (ainvoke_from self n k w state)) \<le> k"
proof (induction n k w state rule: walk_induct [where self = self])
  case (at_end k w state)
  show ?case by (simp add: ainvoke_from_END)
next
  case (out_of_steps n w state)
  then show ?case by (simp add: ainvoke_from_out_of_steps)
next
  case (failed n k w state e)
  then show ?case by (simp add: ainvoke_from_fail)
next
  case (step n k w state w' state' n')
  from step.IH show ?case by (simp add: ainvoke_from_step [OF step.hyps(1,2,3)])
qed

lemma passes_left_step:
  assumes "run_node self n w state = Inr (w', state')"
    and "next_node self n state' = Some n'"
  shows "(if n = Query_agent then 1 else 0) + passes_left self n' state'
         \<le> passes_left self n state"
proof (cases n)
  case Router_agent
  with assms have "iteration state' = iteration state"
    by (simp add: run_node_iteration)
  moreover from Router_agent assms(2) have "n' = Query_agent \<or> n' = Response_agent"
    by (auto dest: route_edges_cases)
  ultimately show ?thesis using Router_agent by auto
next
  case Query_agent
  with assms have "iteration state' = iteration state + 1" and "n' = Evaluation_agent"
    by (auto simp: run_node_iteration)
  with Query_agent show ?thesis by simp
next
  case Evaluation_agent
  with assms have it: "iteration state' = iteration state"
    by (simp add: run_node_iteration)
  from Evaluation_agent assms(2) have "n' = Query_agent \<or> n' = Response_agent"
    by (auto dest: evaluation_edges_cases)
  then show ?thesis
  proof
    assume q: "n' = Query_agent"
    with Evaluation_agent assms(2) have "iteration state' < max_iterations self"
      by (simp add: refine_below_limit)
    with q it Evaluation_agent show ?thesis by simp
  next
    assume "n' = Response_agent"
    with Evaluation_agent show ?thesis by simp
  qed
next
  case Response_agent
  with assms have "n' = END" by simp
  with Response_agent show ?thesis by simp
next
  case END
  with assms show ?thesis by simp
qed

lemma walk_passes:
  "count_list (nodes_of (fst (ainvoke_from self n k w state))) Query_agent
   \<le> passes_left self n state"
proof (induction n k w state rule: walk_induct [where self = self])
  case (at_end k w state)
  show ?case by (simp add: ainvoke_from_END nodes_of_def)
next
  case (out_of_steps n w state)
  then show ?case by (simp add: ainvoke_from_out_of_steps nodes_of_def)
next
  case (failed n k w state e)
  then show ?case by (cases n) (simp_all add: ainvoke_from_fail nodes_of_def)
next
  case (step n k w state w' state' n')
  from step.IH passes_left_step [OF step.hyps(2,3)]
  show ?case
    by (simp add: ainvoke_from_step [OF step.hyps(1,2,3)] nodes_of_def split: if_splits)
qed

lemma query_agent_ok:
  assumes "vector_search_func self (length (search_log w)) (query state) = Inr rs"
  shows "\<exists>w' state'. run_node self Query_agent w state = Inr (w', state')
     \<and> iteration state' = iteration state + 1
     \<and> length (search_log w') = Suc (length (search_log w))
     \<and> llm_log w' = llm_log w"
  using assms by (simp add: run_node_def query_agent_def vector_search_def)

lemma evaluation_agent_ok:
  assumes "llm self (length (llm_log w)) (evaluation_messages state) = Inr r"
  shows "\<exists>w' state'. run_node self Evaluation_agent w state = Inr (w', state')
     \<and> iteration state' = iteration state
     \<and> dict_get (metadata state') ''evaluation'' '''' = r
     \<and> length (llm_log w') = Suc (length (llm_log w))
     \<and> search_log w' = search_log w"
  using assms
  by (simp add: run_node_def evaluation_agent_def llm_ainvoke_def dict_get_update)

lemma response_agent_ok:
  assumes "llm self (length (llm_log w)) (response_messages state) = Inr r"
  shows "\<exists>w' state'. run_node self Response_agent w state = Inr (w', state')
     \<and> iteration state' = iteration state
     \<and> search_results state' = search_results state
     \<and> answer state' = r
     \<and> search_log w' = search_log w"
  using assms
  by (simp add: run_node_def response_agent_def llm_ainvoke_def)

lemma respond_walk:
  assumes "llm self (length (llm_log w)) (response_messages state) = Inr r"
  shows "\<exists>w' state'. ainvoke_from self Response_agent (Suc k) w state =
       ([(Response_agent, Inr state')], Inr (w', state'))
     \<and> iteration state' = iteration state
     \<and> search_results state' = search_results state
     \<and> answer state' = r
     \<and> search_log w' = search_log w"
proof -
  from response_agent_ok [OF assms] obtain w' state' where
    run: "run_node self Response_agent w state = Inr (w', state')"
    and rest: "iteration state' = iteration state" "search_results state' = search_results state"
      "answer state' = r" "search_log w' = search_log w"
    by blast
  have "ainvoke_from self Response_agent (Suc k) w state =
       ([(Response_agent, Inr state')], Inr (w', state'))"
    using ainvoke_from_step [OF _ run, of END k] by (simp add: ainvoke_from_END)
  with rest show ?thesis by blast
qed

text \<open>
  The loop of the query and evaluation nodes when every evaluation is judged
  insufficient, from the pass that starts with the counter at \<open>j\<close>, with enough steps
  left for the passes that remain and for the response node.
\<close>

lemma insufficient_loop:
  fixes N :: nat
  assumes N: "max_iterations self = int N"
    and llm_ok: "\<forall>i p. i \<le> N + 1 \<longrightarrow> (\<exists>r. llm self i p = Inr r)"
    and search_ok: "\<forall>i q. i < N \<longrightarrow> (\<exists>rs. vector_search_func self i q = Inr rs)"
    and insuff: "\<forall>i p r. 1 \<le> i \<and> i \<le> N \<and> llm self i p = Inr r
       \<longrightarrow> \<not> (contains_ci ''sufficient'' r \<and> contains_ci ''true'' r)"
  shows "d = N - j \<Longrightarrow> j < N \<Longrightarrow> 2 * (N - j) + 1 \<le> k \<Longrightarrow> iteration state = int j
     \<Longrightarrow> length (llm_log w) = Suc j \<Longrightarrow> length (search_log w) = j
     \<Longrightarrow> \<exists>w' state'. snd (ainvoke_from self Query_agent k w state) = Inr (w', state')
           \<and> iteration state' = int N \<and> length (search_log w') = N
           \<and> nodes_of (fst (ainvoke_from self Query_agent k w state)) =
               concat (replicate (N - j) [Query_agent, Evaluation_agent]) @ [Response_agent]
           \<and> evaluation_decisions self (fst (ainvoke_from self Query_agent k w state)) =
               replicate (N - j - 1) ''refine'' @ [''respond'']"
proof (induction d arbitrary: j k w state)
  case 0
  then show ?case by simp
next
  case (Suc d)
  from Suc.prems(2,3) obtain k2 where k: "k = Suc (Suc k2)" and k2: "2 * (N - Suc j) + 1 \<le> k2"
    by (cases k; cases "k - 1") auto
  from search_ok Suc.prems(2) Suc.prems(6) obtain rs where
    "vector_search_func self (length (search_log w)) (query state) = Inr rs" by metis
  from query_agent_ok [OF this] obtain w1 s1 where
    run1: "run_node self Query_agent w state = Inr (w1, s1)"
    and it1: "iteration s1 = int j + 1"
    and sl1: "length (search_log w1) = Suc j"
    and ll1: "length (llm_log w1) = Suc j"
    using Suc.prems by auto
  have nx1: "next_node self Query_agent s1 = Some Evaluation_agent" by simp
  have "Suc j \<le> N + 1" using Suc.prems(2) by simp
  with llm_ok ll1 obtain r where
    r: "llm self (length (llm_log w1)) (evaluation_messages s1) = Inr r" by metis
  from evaluation_agent_ok [OF r] obtain w2 s2 where
    run2: "run_node self Evaluation_agent w1 s1 = Inr (w2, s2)"
    and it2: "iteration s2 = int j + 1"
    and ev2: "dict_get (metadata s2) ''evaluation'' '''' = r"
    and ll2: "length (llm_log w2) = Suc (Suc j)"
    and sl2: "length (search_log w2) = Suc j"
    using it1 sl1 ll1 by auto
  have ins: "\<not> (contains_ci ''sufficient'' r \<and> contains_ci ''true'' r)"
    using insuff r ll1 Suc.prems(2)
    by (metis Suc_leI Suc_le_mono le0 One_nat_def)
  note unf1 = ainvoke_from_step [OF _ run1 nx1, of "Suc k2", simplified]
  show ?case
  proof (cases "Suc j = N")
    case True
    have dec: "evaluation_decision self s2 = ''respond''"
      using True it2 N by (simp add: evaluation_decision_def)
    then have nx2: "next_node self Evaluation_agent s2 = Some Response_agent"
      by (simp add: evaluation_edges_def)
    note unf2 = ainvoke_from_step [OF _ run2 nx2, of k2, simplified]
    from k2 obtain k3 where k3: "k2 = Suc k3" by (cases k2) auto
    have "Suc (Suc j) \<le> N + 1" using True by simp
    with llm_ok ll2 obtain a where
      "llm self (length (llm_log w2)) (response_messages s2) = Inr a" by metis
    from respond_walk [OF this, of k3] obtain w3 s3 where
      walk3: "ainvoke_from self Response_agent k2 w2 s2 =
         ([(Response_agent, Inr s3)], Inr (w3, s3))"
      and it3: "iteration s3 = iteration s2" and sl3: "search_log w3 = search_log w2"
      using k3 by blast
    have nj: "N - j = Suc 0" using True by simp
    show ?thesis
      using unf1 unf2 walk3 it3 it2 sl3 sl2 True dec nj k
      by (simp add: nodes_of_def)
  next
    case False
    with Suc.prems(2) have lt: "Suc j < N" by simp
    have dec: "evaluation_decision self s2 = ''refine''"
      using lt it2 N ev2 ins
      by (auto simp: evaluation_decision_def contains_ci_iff Let_def)
    then have nx2: "next_node self Evaluation_agent s2 = Some Query_agent"
      by (simp add: evaluation_edges_def)
    note unf2 = ainvoke_from_step [OF _ run2 nx2, of k2, simplified]
    have d: "d = N - Suc j" using Suc.prems(1) by simp
    have it2': "iteration s2 = int (Suc j)" using it2 by simp
    from Suc.IH [OF d lt k2 it2' ll2 sl2] obtain w' state' where
      out: "snd (ainvoke_from self Query_agent k2 w2 s2) = Inr (w', state')"
      and fin: "iteration state' = int N" "length (search_log w') = N"
      and nodes: "nodes_of (fst (ainvoke_from self Query_agent k2 w2 s2)) =
         concat (replicate (N - Suc j) [Query_agent, Evaluation_agent]) @ [Response_agent]"
      and decs: "evaluation_decisions self (fst (ainvoke_from self Query_agent k2 w2 s2)) =
         replicate (N - Suc j - 1) ''refine'' @ [''respond'']"
      by blast
    have nj: "N - j = Suc (N - Suc j)" using lt by simp
    have nj1: "N - Suc j = Suc (N - Suc (Suc j))" using lt by simp
    have "nodes_of (fst (ainvoke_from self Query_agent k w state)) =
       concat (replicate (N - j) [Query_agent, Evaluation_agent]) @ [Response_agent]"
      using unf1 unf2 nodes k by (simp add: nodes_of_def nj)
    moreover have "evaluation_decisions self (fst (ainvoke_from self Query_agent k w state)) =
       replicate (N - j - 1) ''refine'' @ [''respond'']"
      using unf1 unf2 decs dec k by (simp add: nj1)
    moreover have "snd (ainvoke_from self Query_agent k w state) = Inr (w', state')"
      using unf1 unf2 out k by simp
    ultimately show ?thesis using fin by blast
  qed
qed

lemma router_agent_ok:
  assumes "llm self (length (llm_log w)) (router_messages state) = Inr r"
  shows "\<exists>w' state'. run_node self Router_agent w state = Inr (w', state')
     \<and> iteration state' = iteration state
     \<and> search_results state' = search_results state
     \<and> dict_get (metadata state') ''router_decision'' '''' = r
     \<and> length (llm_log w') = Suc (length (llm_log w))
     \<and> search_log w' = search_log w"
  using assms
  by (simp add: run_node_def router_agent_def llm_ainvoke_def dict_get_update)

lemma count_query_passes:
  "count_list (concat (replicate k [Query_agent, Evaluation_agent]) @ [Response_agent])
     Query_agent = k"
  by (induction k) simp_all

text \<open>
  Within the step limit of the graph library, a run whose evaluations are all judged
  insufficient makes exactly \<open>N\<close> passes and is then sent to the response node.
\<close>

lemma forced_respond_within_step_limit:
  fixes N :: nat
  assumes N: "max_iterations self = int N" and pos: "0 < N"
    and fits: "2 * N + 2 \<le> recursion_limit"
    and llm_ok: "\<forall>i p. i \<le> N + 1 \<longrightarrow> (\<exists>r. llm self i p = Inr r)"
    and search_ok: "\<forall>i q. i < N \<longrightarrow> (\<exists>rs. vector_search_func self i q = Inr rs)"
    and route: "\<forall>p r. llm self 0 p = Inr r \<longrightarrow> \<not> contains_ci ''direct'' r"
    and insuff: "\<forall>i p r. 1 \<le> i \<and> i \<le> N \<and> llm self i p = Inr r
       \<longrightarrow> \<not> (contains_ci ''sufficient'' r \<and> contains_ci ''true'' r)"
  shows "\<exists>w' state'. snd (run_of self q) = Inr (w', state')
           \<and> iteration state' = int N \<and> length (search_log w') = N
           \<and> nodes_of (fst (run_of self q)) =
               Router_agent # concat (replicate N [Query_agent, Evaluation_agent])
                 @ [Response_agent]
           \<and> evaluation_decisions self (fst (run_of self q)) =
               replicate (N - 1) ''refine'' @ [''respond'']"
proof -
  from fits obtain k where k: "recursion_limit = Suc k" and k1: "2 * (N - 0) + 1 \<le> k"
    by (cases recursion_limit) auto
  from llm_ok obtain r where
    r: "llm self (length (llm_log initial_world)) (router_messages (initial_state q)) = Inr r"
    by (metis le0 list.size(3) select_convs(1) initial_world_def)
  from router_agent_ok [OF r] obtain w1 s1 where
    run: "run_node self Router_agent initial_world (initial_state q) = Inr (w1, s1)"
    and it: "iteration s1 = 0"
    and rd: "dict_get (metadata s1) ''router_decision'' '''' = r"
    and ll: "length (llm_log w1) = Suc 0"
    and sl: "length (search_log w1) = 0"
    by (auto simp: initial_world_def initial_state_def)
  from r route have "\<not> contains_ci ''direct'' r" by (auto simp: initial_world_def)
  with rd have nx: "next_node self Router_agent s1 = Some Query_agent"
    by (simp add: route_decision_def contains_ci_iff route_edges_def)
  note unf = ainvoke_from_step [OF _ run nx, of k, simplified]
  have it': "iteration s1 = int 0" using it by simp
  from insufficient_loop [OF N llm_ok search_ok insuff refl pos k1 it' ll sl]
  obtain w' state' where
    "snd (ainvoke_from self Query_agent k w1 s1) = Inr (w', state')"
    "iteration state' = int N" "length (search_log w') = N"
    "nodes_of (fst (ainvoke_from self Query_agent k w1 s1)) =
       concat (replicate (N - 0) [Query_agent, Evaluation_agent]) @ [Response_agent]"
    "evaluation_decisions self (fst (ainvoke_from self Query_agent k w1 s1)) =
       replicate (N - 0 - 1) ''refine'' @ [''respond'']"
    by blast
  with unf k show ?thesis by (simp add: run_of_def nodes_of_def)
qed

lemma refine_twice_llm:
  "llm refine_twice 0 p = Inr ''route: query''"
  "llm refine_twice (Suc 0) p = Inr ''sufficient: false''"
  "llm refine_twice 2 p = Inr ''sufficient: false''"
  "llm refine_twice 3 p = Inr ''The answer.''"
  by (simp_all add: refine_twice_def demo_system_def scripted_llm_def)

text \<open>
  C4. With the limit 12, a router reply that asks for retrieval and evaluations that are
  all judged insufficient, the run does not end with an answer: the router and twelve
  passes of the query and evaluation nodes use up the 25 steps of the graph library, the
  response node is not among them, and \<^verbatim>\<open>execute\<close> fails with
  \<^verbatim>\<open>GraphRecursionError\<close> instead of returning the count 12. The last evaluation decision
  is "respond", forced by the limit. With the limit 11 the same dependencies give a run of
  24 nodes that returns the count 11.
\<close>

theorem recursion_limit_cuts_refinement:
  "execute (never_satisfied 12) ''q'' = Inl GraphRecursionError
   \<and> length (fst (run_of (never_satisfied 12) ''q'')) = 25
   \<and> count_list (nodes_of (fst (run_of (never_satisfied 12) ''q''))) Query_agent = 12
   \<and> count_list (nodes_of (fst (run_of (never_satisfied 12) ''q''))) Response_agent = 0
   \<and> last (evaluation_decisions (never_satisfied 12) (fst (run_of (never_satisfied 12) ''q'')))
       = ''respond''
   \<and> map_sum (\<lambda>e. ()) iterations (execute (never_satisfied 11) ''q'') = Inr 11
   \<and> length (fst (run_of (never_satisfied 11) ''q'')) = 24"
  by code_simp

section \<open>The direct path\<close>

lemma response_messages_router:
  "run_node self Router_agent w state = Inr (w', state')
   \<Longrightarrow> response_messages state' = response_messages state"
  by (auto simp: run_node_def router_agent_def response_messages_def split: sum.splits)

lemma direct_run:
  assumes r: "llm self 0 (router_messages (initial_state q)) = Inr r"
    and d: "contains_ci ''direct'' r"
  shows "\<exists>w1 s1. run_node self Router_agent initial_world (initial_state q) = Inr (w1, s1)
      \<and> search_results s1 = [] \<and> iteration s1 = 0 \<and> search_log w1 = []
      \<and> length (llm_log w1) = 1
      \<and> response_messages s1 = response_messages (initial_state q)
      \<and> (\<exists>k. recursion_limit = Suc (Suc k)
          \<and> run_of self q =
              ((Router_agent, Inr s1) # fst (ainvoke_from self Response_agent (Suc k) w1 s1),
               snd (ainvoke_from self Response_agent (Suc k) w1 s1)))"
proof -
  from r have "llm self (length (llm_log initial_world)) (router_messages (initial_state q)) = Inr r"
    by (simp add: initial_world_def)
  from router_agent_ok [OF this] obtain w1 s1 where
    run: "run_node self Router_agent initial_world (initial_state q) = Inr (w1, s1)"
    and p: "iteration s1 = 0" "search_results s1 = []" "search_log w1 = []"
      "length (llm_log w1) = 1"
    and rd: "dict_get (metadata s1) ''router_decision'' '''' = r"
    by (auto simp: initial_world_def initial_state_def)
  from rd d have nx: "next_node self Router_agent s1 = Some Response_agent"
    by (simp add: route_decision_def contains_ci_iff route_edges_def)
  obtain k where k: "recursion_limit = Suc (Suc k)"
    by (simp add: recursion_limit_def numeral_eq_Suc)
  from ainvoke_from_step [OF _ run nx, of "Suc k"] response_messages_router [OF run] run p k
  show ?thesis by (auto simp: run_of_def)
qed

text \<open>
  C5. When the router reply contains "direct" case-insensitively, the run executes the
  router and then the response node and nothing else: the query node never runs, every
  state of the run has no search results and the counter at 0, and \<^verbatim>\<open>execute\<close>, when
  the language model answers the response node, returns that answer with empty sources
  and the count 0.
\<close>

theorem direct_route_skips_retrieval:
  assumes "llm self 0 (router_messages (initial_state q)) = Inr r"
    and "contains_ci ''direct'' r"
  shows "nodes_of (fst (run_of self q)) = [Router_agent, Response_agent]
    \<and> Query_agent \<notin> set (nodes_of (fst (run_of self q)))
    \<and> (\<forall>s \<in> set (states_of (fst (run_of self q))). search_results s = [] \<and> iteration s = 0)
    \<and> (\<forall>w s. snd (run_of self q) = Inr (w, s) \<longrightarrow> search_log w = [])
    \<and> (\<forall>a. llm self 1 (response_messages (initial_state q)) = Inr a
          \<longrightarrow> (\<exists>res. execute self q = Inr res \<and> execute_result.answer res = a
                 \<and> sources res = [] \<and> iterations res = 0))
    \<and> (\<forall>e. llm self 1 (response_messages (initial_state q)) = Inl e
          \<longrightarrow> execute self q = Inl e)
    \<and> (\<forall>res. execute self q = Inr res \<longrightarrow> sources res = [] \<and> iterations res = 0)"
proof -
  from direct_run [OF assms] obtain w1 s1 k where
    p: "search_results s1 = []" "iteration s1 = 0" "search_log w1 = []"
      "length (llm_log w1) = 1"
      "response_messages s1 = response_messages (initial_state q)"
    and unf: "run_of self q =
          ((Router_agent, Inr s1) # fst (ainvoke_from self Response_agent (Suc k) w1 s1),
           snd (ainvoke_from self Response_agent (Suc k) w1 s1))"
    by blast
  show ?thesis
  proof (cases "llm self 1 (response_messages (initial_state q))")
    case (Inl e)
    with p have "run_node self Response_agent w1 s1 = Inl e"
      by (simp add: run_node_def response_agent_def llm_ainvoke_def)
    then have "ainvoke_from self Response_agent (Suc k) w1 s1
        = ([(Response_agent, Inl e)], Inl e)"
      by (simp add: ainvoke_from_fail)
    with unf p Inl show ?thesis
      by (simp add: nodes_of_def execute_def)
  next
    case (Inr a)
    with p have "llm self (length (llm_log w1)) (response_messages s1) = Inr a" by simp
    from respond_walk [OF this, of k] obtain w2 s2 where
      "ainvoke_from self Response_agent (Suc k) w1 s1
         = ([(Response_agent, Inr s2)], Inr (w2, s2))"
      "iteration s2 = iteration s1" "search_results s2 = search_results s1"
      "answer s2 = a" "search_log w2 = search_log w1"
      by blast
    with unf p Inr show ?thesis
      by (simp add: nodes_of_def execute_def)
  qed
qed

theorem direct_route_skips_retrieval_witness:
  "llm direct_answer 0 (router_messages (initial_state ''What is photosynthesis?''))
     = Inr ''route: direct, reasoning: general knowledge''
   \<and> contains_ci ''direct'' ''route: direct, reasoning: general knowledge''
   \<and> nodes_of (fst (run_of direct_answer ''What is photosynthesis?''))
       = [Router_agent, Response_agent]
   \<and> (\<exists>res. execute direct_answer ''What is photosynthesis?'' = Inr res
         \<and> execute_result.answer res = ''Plants turn light into sugar.''
         \<and> sources res = [] \<and> iterations res = 0)"
proof -
  have h1: "llm direct_answer 0 (router_messages (initial_state ''What is photosynthesis?''))
     = Inr ''route: direct, reasoning: general knowledge''"
    by (simp add: direct_answer_def demo_system_def scripted_llm_def)
  have h2: "contains_ci ''direct'' ''route: direct, reasoning: general knowledge''"
    by (simp add: contains_ci_iff lower_def lower_char_def)
  have h3: "llm direct_answer 1 (response_messages (initial_state ''What is photosynthesis?''))
     = Inr ''Plants turn light into sugar.''"
    by (simp add: direct_answer_def demo_system_def scripted_llm_def)
  from direct_route_skips_retrieval [OF h1 h2] h1 h2 h3 show ?thesis by simp
qed

section \<open>The answer\<close>









section \<open>Failures of the dependencies\<close>

text \<open>
  C8. No node catches a failure of its dependency: a node returns an error exactly when
  the call it makes to the language model or to the vector search returns that error. A
  node's error ends the walk at that node, and \<^verbatim>\<open>execute\<close> then returns the same
  error, with no result beside it; every error that \<^verbatim>\<open>execute\<close> returns is the error
  of a node of the run or the \<^verbatim>\<open>GraphRecursionError\<close> of the graph library.
\<close>

theorem dependency_failure_propagates:
  "(router_agent self w state = Inl e)
     = (llm self (length (llm_log w)) (router_messages state) = Inl e)
   \<and> (query_agent self w state = Inl e)
     = (vector_search_func self (length (search_log w)) (query state) = Inl e)
   \<and> (evaluation_agent self w state = Inl e)
     = (llm self (length (llm_log w)) (evaluation_messages state) = Inl e)
   \<and> (response_agent self w state = Inl e)
     = (llm self (length (llm_log w)) (response_messages state) = Inl e)
   \<and> (\<forall>n k. n \<noteq> END \<and> run_node self n w state = Inl e
         \<longrightarrow> ainvoke_from self n (Suc k) w state = ([(n, Inl e)], Inl e))
   \<and> (\<forall>n. (n, Inl e) \<in> set (fst (run_of self q))
         \<longrightarrow> last (fst (run_of self q)) = (n, Inl e) \<and> snd (run_of self q) = Inl e
             \<and> execute self q = Inl e)
   \<and> (execute self q = Inl e
         \<longrightarrow> (\<exists>n. (n, Inl e) \<in> set (fst (run_of self q))) \<or> e = GraphRecursionError)"
proof -
  have r: "(router_agent self w state = Inl e)
     = (llm self (length (llm_log w)) (router_messages state) = Inl e)"
    by (auto simp: router_agent_def llm_ainvoke_def split: sum.splits)
  have qa: "(query_agent self w state = Inl e)
     = (vector_search_func self (length (search_log w)) (query state) = Inl e)"
    by (auto simp: query_agent_def vector_search_def split: sum.splits)
  have ev: "(evaluation_agent self w state = Inl e)
     = (llm self (length (llm_log w)) (evaluation_messages state) = Inl e)"
    by (auto simp: evaluation_agent_def llm_ainvoke_def split: sum.splits)
  have rs: "(response_agent self w state = Inl e)
     = (llm self (length (llm_log w)) (response_messages state) = Inl e)"
    by (auto simp: response_agent_def llm_ainvoke_def split: sum.splits)
  have ab: "ainvoke_from self n (Suc k) w state = ([(n, Inl e)], Inl e)"
    if "n \<noteq> END \<and> run_node self n w state = Inl e" for n k
    using that by (simp add: ainvoke_from_fail)
  have pr: "last (fst (run_of self q)) = (n, Inl e) \<and> snd (run_of self q) = Inl e
             \<and> execute self q = Inl e"
    if "(n, Inl e) \<in> set (fst (run_of self q))" for n
    using walk_error [where m = n and e = e and self = self and n = Router_agent
        and w = initial_world and state = "initial_state q" and k = recursion_limit] that
    by (simp add: run_of_def execute_def)
  have src: "(\<exists>n. (n, Inl e) \<in> set (fst (run_of self q))) \<or> e = GraphRecursionError"
    if "execute self q = Inl e"
  proof -
    from that have "snd (run_of self q) = Inl e"
      by (auto simp: execute_def split: sum.splits)
    then show ?thesis
      using walk_error_source [where self = self and n = Router_agent
          and w = initial_world and state = "initial_state q" and k = recursion_limit and e = e]
      by (simp add: run_of_def)
  qed
  from r qa ev rs ab pr src show ?thesis by blast
qed

lemma search_down_trace:
  "fst (run_of search_down ''q'') =
     [(Router_agent, Inr ((initial_state ''q'')
          \<lparr>messages := [AIMessage ''route: query''], current_agent := ''router'',
            metadata := [(''router_decision'', ''route: query'')]\<rparr>)),
      (Query_agent, Inl (DependencyError ''index unreachable''))]"
  by code_simp

theorem dependency_failure_propagates_witness:
  "query_agent search_down initial_world (initial_state ''q'')
     = Inl (DependencyError ''index unreachable'')
   \<and> (Query_agent, Inl (DependencyError ''index unreachable''))
       \<in> set (fst (run_of search_down ''q''))
   \<and> execute search_down ''q'' = Inl (DependencyError ''index unreachable'')"
proof -
  have v: "vector_search_func search_down (length (search_log initial_world))
      (query (initial_state ''q'')) = Inl (DependencyError ''index unreachable'')"
    by (simp add: search_down_def)
  have m: "(Query_agent, Inl (DependencyError ''index unreachable''))
       \<in> set (fst (run_of search_down ''q''))"
    by (simp add: search_down_trace)
  from dependency_failure_propagates
    [of search_down initial_world "initial_state ''q''" "DependencyError ''index unreachable''" "''q''"]
    v m show ?thesis by blast
qed

section \<open>The evaluation node\<close>

text \<open>
  C9. The evaluation node calls the language model whatever the counter is. When the
  model replies, the call is logged, the reply is appended to the messages and stored
  under "evaluation", the counter is unchanged, and when the counter has reached the limit
  the branch function answers "respond" whatever the reply says. When the model fails,
  the node fails with the same error.
\<close>

theorem evaluation_always_consults_llm:
  "(llm self (length (llm_log w)) (evaluation_messages state) = Inr r
      \<longrightarrow> (\<exists>w' state'. evaluation_agent self w state = Inr (w', state')
             \<and> llm_log w' = llm_log w @ [(evaluation_messages state, r)]
             \<and> messages state' = messages state @ [AIMessage r]
             \<and> map_of (metadata state') ''evaluation'' = Some r
             \<and> iteration state' = iteration state
             \<and> (max_iterations self \<le> iteration state
                  \<longrightarrow> evaluation_decision self state' = ''respond'')))
   \<and> (llm self (length (llm_log w)) (evaluation_messages state) = Inl e
      \<longrightarrow> evaluation_agent self w state = Inl e)"
  by (simp add: evaluation_agent_def llm_ainvoke_def update_conv' evaluation_decision_def)

theorem evaluation_always_consults_llm_witness:
  "llm refine_twice (length (llm_log one_call)) (evaluation_messages at_limit)
     = Inr ''sufficient: false''
   \<and> max_iterations refine_twice \<le> iteration at_limit
   \<and> (\<exists>w' state'. evaluation_agent refine_twice one_call at_limit = Inr (w', state')
         \<and> length (llm_log w') = 2
         \<and> messages state' = [AIMessage ''route: query'', AIMessage ''sufficient: false'']
         \<and> map_of (metadata state') ''evaluation'' = Some ''sufficient: false''
         \<and> evaluation_decision refine_twice state' = ''respond'')"
proof -
  have h: "llm refine_twice (length (llm_log one_call)) (evaluation_messages at_limit)
     = Inr ''sufficient: false''"
    by (simp add: one_call_def refine_twice_llm)
  have l: "max_iterations refine_twice \<le> iteration at_limit"
    by (simp add: refine_twice_limit at_limit_def)
  from evaluation_always_consults_llm [of refine_twice one_call at_limit "''sufficient: false''"]
    h l obtain w' state' where
    "evaluation_agent refine_twice one_call at_limit = Inr (w', state')"
    "llm_log w' = llm_log one_call @ [(evaluation_messages at_limit, ''sufficient: false'')]"
    "messages state' = messages at_limit @ [AIMessage ''sufficient: false'']"
    "map_of (metadata state') ''evaluation'' = Some ''sufficient: false''"
    "evaluation_decision refine_twice state' = ''respond''"
    by blast
  with h l show ?thesis by (simp add: one_call_def at_limit_def)
qed

section \<open>The context of the response node\<close>

lemma str_nat_digit: "k < 5 \<Longrightarrow> str_nat (k + 1) = [''12345'' ! k]"
proof -
  assume "k < 5"
  then have "k = 0 \<or> k = 1 \<or> k = 2 \<or> k = 3 \<or> k = 4" by auto
  then show ?thesis by (auto simp: str_nat.simps)
qed

lemma context_blocks_nth:
  assumes "k < min 5 (length results)"
  shows "context_blocks results ! k =
     ''[Source '' @ str_nat (k + 1) @ ''] (Score: '' @ result_dict.score (results ! k)
       @ '')'' @ nl @ result_dict.content (results ! k)"
proof -
  from assms have k: "k < length (take 5 results)" by simp
  then have "context_blocks results ! k = source_block (List.enumerate 0 (take 5 results) ! k)"
    by (simp add: context_blocks_def)
  also have "List.enumerate 0 (take 5 results) ! k = (k, results ! k)"
    using k by (simp add: nth_enumerate_eq)
  finally show ?thesis by (simp add: source_block_def)
qed

text \<open>
  C7. The context of the response node is made of one block per search result for the
  first five results at most, in their order: there are \<open>min 5 n\<close> blocks for \<open>n\<close>
  results (5 for 12 results), results after the fifth play no part, and block \<open>k\<close>
  (counted from 0) is "[Source k+1] (Score: s)", a line break, and the content, for the
  score \<open>s\<close> and the content of result \<open>k\<close>, where \<open>k+1\<close> is printed as one of the
  digits 1 to 5. The blocks are joined by blank lines into the context that the node sends
  to the language model.
\<close>

theorem context_uses_first_five:
  "length (context_blocks results) = min 5 (length results)
   \<and> (\<forall>k. k < min 5 (length results) \<longrightarrow>
         context_blocks results ! k =
           ''[Source '' @ str_nat (k + 1) @ ''] (Score: '' @ result_dict.score (results ! k)
             @ '')'' @ nl @ result_dict.content (results ! k)
         \<and> str_nat (k + 1) = [''12345'' ! k])
   \<and> context_blocks results = context_blocks (take 5 results)
   \<and> response_context results = join (nl @ nl) (context_blocks results)
   \<and> response_messages state =
       [SystemMessage response_system_prompt,
        HumanMessage (''Context:'' @ nl @ response_context (search_results state)
                      @ nl @ nl @ ''Query: '' @ query state)]
   \<and> (\<forall>w' state'. response_agent self w state = Inr (w', state')
         \<longrightarrow> fst (last (llm_log w')) = response_messages state)"
proof -
  have len: "length (context_blocks results) = min 5 (length results)"
    by (simp add: context_blocks_def min.commute)
  have nth: "context_blocks results ! k =
           ''[Source '' @ str_nat (k + 1) @ ''] (Score: '' @ result_dict.score (results ! k)
             @ '')'' @ nl @ result_dict.content (results ! k)
         \<and> str_nat (k + 1) = [''12345'' ! k]"
    if "k < min 5 (length results)" for k
    using that context_blocks_nth [OF that] str_nat_digit [of k] by simp
  have tk: "context_blocks results = context_blocks (take 5 results)"
    by (simp add: context_blocks_def)
  have sent: "fst (last (llm_log w')) = response_messages state"
    if "response_agent self w state = Inr (w', state')" for w' state'
    using that by (auto simp: response_agent_def llm_ainvoke_def split: sum.splits)
  from len nth tk sent show ?thesis
    by (simp add: response_context_def response_messages_def)
qed

lemma twelve_results_length: "length twelve_results = 12"
  by (simp add: twelve_results_def)

lemma twelve_results_blocks:
  "context_blocks twelve_results =
     [''[Source 1] (Score: 0.5)'' @ nl @ ''chunk 1'',
      ''[Source 2] (Score: 0.5)'' @ nl @ ''chunk 2'',
      ''[Source 3] (Score: 0.5)'' @ nl @ ''chunk 3'',
      ''[Source 4] (Score: 0.5)'' @ nl @ ''chunk 4'',
      ''[Source 5] (Score: 0.5)'' @ nl @ ''chunk 5'']"
  by code_simp

theorem context_uses_first_five_witness:
  "length twelve_results = 12
   \<and> length (context_blocks twelve_results) = 5
   \<and> context_blocks twelve_results ! 4 =
       ''[Source '' @ str_nat 5 @ ''] (Score: '' @ result_dict.score (twelve_results ! 4)
         @ '')'' @ nl @ result_dict.content (twelve_results ! 4)
   \<and> context_blocks twelve_results ! 4 = ''[Source 5] (Score: 0.5)'' @ nl @ ''chunk 5''"
proof -
  note t = context_uses_first_five [where results = twelve_results
      and state = "initial_state ''q''" and self = refine_twice and w = initial_world]
  from t have len: "length (context_blocks twelve_results) = min 5 (length twelve_results)"
    by (rule conjunct1)
  from t have "\<forall>k. k < min 5 (length twelve_results) \<longrightarrow>
         context_blocks twelve_results ! k =
           ''[Source '' @ str_nat (k + 1) @ ''] (Score: ''
             @ result_dict.score (twelve_results ! k)
             @ '')'' @ nl @ result_dict.content (twelve_results ! k)
         \<and> str_nat (k + 1) = [''12345'' ! k]"
    by (rule conjunct1 [OF conjunct2])
  then have "4 < min 5 (length twelve_results) \<longrightarrow>
         context_blocks twelve_results ! 4 =
           ''[Source '' @ str_nat (4 + 1) @ ''] (Score: ''
             @ result_dict.score (twelve_results ! 4)
             @ '')'' @ nl @ result_dict.content (twelve_results ! 4)
         \<and> str_nat (4 + 1) = [''12345'' ! 4]"
    by (rule spec)
  then have nth: "context_blocks twelve_results ! 4 =
           ''[Source '' @ str_nat 5 @ ''] (Score: ''
             @ result_dict.score (twelve_results ! 4)
             @ '')'' @ nl @ result_dict.content (twelve_results ! 4)"
    by (simp add: twelve_results_length)
  have "context_blocks twelve_results ! 4 = ''[Source 5] (Score: 0.5)'' @ nl @ ''chunk 5''"
    by (simp add: twelve_results_blocks)
  with len nth show ?thesis by (simp add: twelve_results_length)
qed

end
